theory Spec2Isabelle
  imports Main "HOL-Library.AList"
begin

section \<open>Data model of \<open>target_postgres/stream_tracker.py\<close>\<close>

text \<open>
  A STATE payload is whatever \<open>json.loads\<close> produced for the \<open>value\<close> key of a STATE
  line. Python dictionaries keep insertion order, so an object is an association list.
  Floating point leaves are left out of the datatype.
\<close>

datatype json =
    JNull
  | JBool bool
  | JInt int
  | JString string
  | JList "json list"
  | JDict "(string \<times> json) list"

text \<open>Python truthiness, as tested by \<open>if emittable_state:\<close> and by \<open>x or {}\<close>.\<close>

fun truthy :: "json \<Rightarrow> bool" where
  "truthy JNull = False"
| "truthy (JBool b) = b"
| "truthy (JInt i) = (i \<noteq> 0)"
| "truthy (JString s) = (s \<noteq> [])"
| "truthy (JList xs) = (xs \<noteq> [])"
| "truthy (JDict kvs) = (kvs \<noteq> [])"

datatype error =
    TargetError string
  | KeyError string
  | WriteError

text \<open>An element of \<open>state_queue\<close>: the dict \<open>{'state': ..., 'watermark': ...}\<close>.\<close>

record queue_entry =
  state :: json
  watermark :: int

text \<open>
  The objects the tracker calls into live outside this module: the buffered stream
  (\<open>buffer_full\<close>, \<open>add_record_message\<close>, \<open>flush_buffer\<close>), the target
  (\<open>write_batch\<close>, which may raise) and \<open>singer.statediff.diff\<close>. They are parameters
  of the model, with the signatures of the collaborator contract: only \<open>write_batch\<close>
  can fail. \<open>set_iteration\<close> is the order in which Python iterates over the set
  \<open>streams_to_flush\<close>, which the language leaves open.
\<close>

record ('b, 'r, 't, 'd) collaborators =
  buffer_full :: "'b \<Rightarrow> bool"
  add_record_message :: "'b \<Rightarrow> 'r \<Rightarrow> 'b"
  flush_buffer :: "'b \<Rightarrow> 'b"
  write_batch :: "'t \<Rightarrow> 'b \<Rightarrow> error + 't"
  statediff_diff :: "json \<Rightarrow> json \<Rightarrow> 'd list"
  set_iteration :: "string list \<Rightarrow> string list"

text \<open>
  The fields of \<open>StreamTracker\<close>. A dict is an association list in insertion order
  (\<open>AList.update\<close> overwrites in place or appends, as \<open>d[k] = v\<close> does). \<open>stdout\<close> is
  the sequence of payloads whose \<open>json.dumps\<close> line was written to \<open>sys.stdout\<close>.
\<close>

record ('b, 't) tracker =
  target :: 't
  emit_states :: bool
  max_watermark_lag :: int
  streams :: "(string \<times> 'b) list"
  stream_add_watermarks :: "(string \<times> int) list"
  stream_flush_watermarks :: "(string \<times> int) list"
  streams_added_to :: "string set"
  state_queue :: "queue_entry list"
  message_counter :: int
  last_emitted_state :: "json option"
  stdout :: "json list"

text \<open>\<open>StreamTracker.__init__\<close>; \<open>max_watermark_lag\<close> defaults to 1000000.\<close>

definition init :: "'t \<Rightarrow> bool \<Rightarrow> int \<Rightarrow> ('b, 't) tracker" where
  "init tgt emit lag =
     \<lparr> target = tgt, emit_states = emit, max_watermark_lag = lag,
       streams = [], stream_add_watermarks = [], stream_flush_watermarks = [],
       streams_added_to = {}, state_queue = [], message_counter = 0,
       last_emitted_state = None, stdout = [] \<rparr>"

definition default_max_watermark_lag :: int where
  "default_max_watermark_lag = 1000000"

section \<open>Operations\<close>

text \<open>\<open>d.get(k, default)\<close>.\<close>

definition dict_get :: "('k \<times> 'v) list \<Rightarrow> 'k \<Rightarrow> 'v \<Rightarrow> 'v" where
  "dict_get d k dflt = (case map_of d k of None \<Rightarrow> dflt | Some v \<Rightarrow> v)"

text \<open>\<open>min(xs, default=d)\<close>.\<close>

definition min_default :: "int list \<Rightarrow> int \<Rightarrow> int" where
  "min_default xs d = (case xs of [] \<Rightarrow> d | y # ys \<Rightarrow> fold min ys y)"

text \<open>\<open>s.add(x)\<close> on a set kept as a duplicate-free list.\<close>

definition set_add :: "'a \<Rightarrow> 'a list \<Rightarrow> 'a list" where
  "set_add x xs = (if x \<in> set xs then xs else xs @ [x])"

definition register_stream ::
  "string \<Rightarrow> 'b \<Rightarrow> ('b, 't) tracker \<Rightarrow> ('b, 't) tracker" where
  "register_stream stream buffered_stream s =
     s\<lparr> streams := AList.update stream buffered_stream (streams s),
        stream_flush_watermarks := AList.update stream 0 (stream_flush_watermarks s) \<rparr>"

definition safe_flush_threshold :: "('b, 't) tracker \<Rightarrow> int" where
  "safe_flush_threshold s =
     min_default
       (map snd (filter (\<lambda>(stream, wm). stream \<in> streams_added_to s)
                        (stream_flush_watermarks s)))
       0"

text \<open>
  The \<open>while\<close> loop of \<open>_emit_safe_queued_states\<close>: the queue that is left and the
  value of \<open>emittable_state\<close>, \<open>None\<close> until an entry has been popped.
\<close>

fun pop_safe ::
  "bool \<Rightarrow> int \<Rightarrow> queue_entry list \<Rightarrow> json option \<Rightarrow> queue_entry list \<times> json option" where
  "pop_safe force thr [] emittable = ([], emittable)"
| "pop_safe force thr (q # qs) emittable =
     (if force \<or> watermark q \<le> thr
      then pop_safe force thr qs (Some (state q))
      else (q # qs, emittable))"

text \<open>\<open>self.last_emitted_state or {}\<close>.\<close>

definition last_or_empty :: "json option \<Rightarrow> json" where
  "last_or_empty l =
     (case l of None \<Rightarrow> JDict [] | Some j \<Rightarrow> if truthy j then j else JDict [])"

definition emit_safe_queued_states ::
  "('b, 'r, 't, 'd) collaborators \<Rightarrow> bool \<Rightarrow> ('b, 't) tracker \<Rightarrow> ('b, 't) tracker" where
  "emit_safe_queued_states c force s =
     (let safe_threshold = safe_flush_threshold s;
          (queue', emittable_state) = pop_safe force safe_threshold (state_queue s) None;
          s1 = s\<lparr> state_queue := queue' \<rparr>
      in case emittable_state of
           None \<Rightarrow> s1
         | Some e \<Rightarrow>
             if truthy e then
               (let s2 = (if length (statediff_diff c e (last_or_empty (last_emitted_state s1))) > 0
                          then s1\<lparr> stdout := stdout s1 @ [e] \<rparr>
                          else s1)
                in s2\<lparr> last_emitted_state := Some e \<rparr>)
             else s1)"

definition write_batch_and_update_watermarks ::
  "('b, 'r, 't, 'd) collaborators \<Rightarrow> string \<Rightarrow> ('b, 't) tracker
     \<Rightarrow> error option \<times> ('b, 't) tracker" where
  "write_batch_and_update_watermarks c stream s =
     (case map_of (streams s) stream of
        None \<Rightarrow> (Some (KeyError stream), s)
      | Some stream_buffer \<Rightarrow>
          (case write_batch c (target s) stream_buffer of
             Inl e \<Rightarrow> (Some e, s)
           | Inr tgt \<Rightarrow>
               (None,
                s\<lparr> target := tgt,
                   streams := AList.update stream (flush_buffer c stream_buffer) (streams s),
                   stream_flush_watermarks :=
                     AList.update stream (dict_get (stream_add_watermarks s) stream 0)
                       (stream_flush_watermarks s) \<rparr>)))"

definition flush_stream ::
  "('b, 'r, 't, 'd) collaborators \<Rightarrow> string \<Rightarrow> ('b, 't) tracker
     \<Rightarrow> error option \<times> ('b, 't) tracker" where
  "flush_stream c stream s =
     (case write_batch_and_update_watermarks c stream s of
        (Some e, s') \<Rightarrow> (Some e, s')
      | (None, s') \<Rightarrow> (None, emit_safe_queued_states c False s'))"

text \<open>The first loop of \<open>flush_streams_if_required\<close>.\<close>

definition full_or_forced ::
  "('b, 'r, 't, 'd) collaborators \<Rightarrow> bool \<Rightarrow> ('b, 't) tracker \<Rightarrow> string list" where
  "full_or_forced c force s =
     fold (\<lambda>(stream, stream_buffer) acc.
             if force \<or> buffer_full c stream_buffer then set_add stream acc else acc)
          (streams s) []"

text \<open>The lag test: true when the eager flush is taken.\<close>

definition lag_exceeded :: "('b, 't) tracker \<Rightarrow> bool" where
  "lag_exceeded s =
     (length (state_queue s) > 0 \<and>
      message_counter s - safe_flush_threshold s > max_watermark_lag s)"

text \<open>\<open>streams_to_flush\<close> and \<open>force\<close> as they stand before the flushing loop.\<close>

definition streams_to_flush ::
  "('b, 'r, 't, 'd) collaborators \<Rightarrow> bool \<Rightarrow> ('b, 't) tracker \<Rightarrow> string list" where
  "streams_to_flush c force s =
     (if lag_exceeded s
      then fold set_add (map fst (streams s)) (full_or_forced c force s)
      else full_or_forced c force s)"

definition effective_force :: "bool \<Rightarrow> ('b, 't) tracker \<Rightarrow> bool" where
  "effective_force force s = (if lag_exceeded s then True else force)"

text \<open>The flushing loop: an exception of \<open>write_batch\<close> ends it.\<close>

fun write_batches ::
  "('b, 'r, 't, 'd) collaborators \<Rightarrow> string list \<Rightarrow> ('b, 't) tracker
     \<Rightarrow> error option \<times> ('b, 't) tracker" where
  "write_batches c [] s = (None, s)"
| "write_batches c (stream # rest) s =
     (case write_batch_and_update_watermarks c stream s of
        (Some e, s') \<Rightarrow> (Some e, s')
      | (None, s') \<Rightarrow> write_batches c rest s')"

definition flush_streams_if_required ::
  "('b, 'r, 't, 'd) collaborators \<Rightarrow> bool \<Rightarrow> ('b, 't) tracker
     \<Rightarrow> error option \<times> ('b, 't) tracker" where
  "flush_streams_if_required c force s =
     (case write_batches c (set_iteration c (streams_to_flush c force s)) s of
        (Some e, s') \<Rightarrow> (Some e, s')
      | (None, s') \<Rightarrow> (None, emit_safe_queued_states c (effective_force force s) s'))"

text \<open>\<open>line_data\<close> of a STATE message is the parsed line, a dict.\<close>

definition handle_state_message ::
  "('b, 'r, 't, 'd) collaborators \<Rightarrow> (string \<times> json) list \<Rightarrow> ('b, 't) tracker
     \<Rightarrow> error option \<times> ('b, 't) tracker" where
  "handle_state_message c line_data s =
     (if emit_states s then
        (case map_of line_data ''value'' of
           None \<Rightarrow> (Some (KeyError ''value''), s)
         | Some v \<Rightarrow>
             (None,
              emit_safe_queued_states c False
                (s\<lparr> state_queue :=
                      state_queue s @ [\<lparr> state = v, watermark = message_counter s \<rparr>] \<rparr>)))
      else (None, s))"

definition handle_record_message ::
  "('b, 'r, 't, 'd) collaborators \<Rightarrow> string \<Rightarrow> 'r \<Rightarrow> ('b, 't) tracker
     \<Rightarrow> error option \<times> ('b, 't) tracker" where
  "handle_record_message c stream line_data s =
     (case map_of (streams s) stream of
        None \<Rightarrow>
          (Some (TargetError (''A record for stream '' @ stream @
                              '' was encountered before a corresponding schema'')), s)
      | Some stream_buffer \<Rightarrow>
          (None,
           s\<lparr> message_counter := message_counter s + 1,
              streams_added_to := insert stream (streams_added_to s),
              stream_add_watermarks :=
                AList.update stream (message_counter s + 1) (stream_add_watermarks s),
              streams := AList.update stream (add_record_message c stream_buffer line_data)
                           (streams s) \<rparr>))"

section \<open>Runs of the tracker\<close>

datatype ('b, 'r) call =
    RegisterStream string 'b
  | FlushStream string
  | FlushStreamsIfRequired bool
  | HandleStateMessage "(string \<times> json) list"
  | HandleRecordMessage string 'r

text \<open>
  One call on the tracker object. An exception does not undo what the method did before
  raising, so the object after the call is the second component in either case.
\<close>

fun call_tracker ::
  "('b, 'r, 't, 'd) collaborators \<Rightarrow> ('b, 'r) call \<Rightarrow> ('b, 't) tracker
     \<Rightarrow> error option \<times> ('b, 't) tracker" where
  "call_tracker c (RegisterStream stream b) s = (None, register_stream stream b s)"
| "call_tracker c (FlushStream stream) s = flush_stream c stream s"
| "call_tracker c (FlushStreamsIfRequired force) s = flush_streams_if_required c force s"
| "call_tracker c (HandleStateMessage line_data) s = handle_state_message c line_data s"
| "call_tracker c (HandleRecordMessage stream line_data) s =
     handle_record_message c stream line_data s"

fun run :: "('b, 'r, 't, 'd) collaborators \<Rightarrow> ('b, 'r) call list \<Rightarrow> ('b, 't) tracker
     \<Rightarrow> ('b, 't) tracker" where
  "run c [] s = s"
| "run c (x # xs) s = run c xs (snd (call_tracker c x s))"

text \<open>
  The calls that flush, and the records for a stream of the set \<open>fed\<close> (the streams that
  have received a record already).
\<close>

fun record_or_flush :: "string set \<Rightarrow> ('b, 'r) call \<Rightarrow> bool" where
  "record_or_flush fed (HandleRecordMessage stream line_data) = (stream \<in> fed)"
| "record_or_flush fed (FlushStream stream) = True"
| "record_or_flush fed (FlushStreamsIfRequired force) = True"
| "record_or_flush fed (RegisterStream stream b) = False"
| "record_or_flush fed (HandleStateMessage line_data) = False"

text \<open>The entries the loop of \<open>_emit_safe_queued_states\<close> pops, in order.\<close>

definition popped :: "bool \<Rightarrow> int \<Rightarrow> queue_entry list \<Rightarrow> queue_entry list" where
  "popped force thr q = takeWhile (\<lambda>x. force \<or> watermark x \<le> thr) q"

section \<open>Test doubles\<close>

text \<open>
  Collaborators in the manner of the \<open>Target\<close> class of \<open>tests/test_target_tools.py\<close>: the
  target keeps the list of batches it was given, a buffer is the list of its records and is
  full from two records on. A batch that holds the record 0 cannot be written. Two payloads
  differ when they are not equal, and a set is iterated in insertion order.
\<close>

definition example_collaborators :: "(nat list, nat, nat list list, unit) collaborators" where
  "example_collaborators =
     \<lparr> buffer_full = (\<lambda>b. 2 \<le> length b),
       add_record_message = (\<lambda>b r. b @ [r]),
       flush_buffer = (\<lambda>b. []),
       write_batch = (\<lambda>t b. if 0 \<in> set b then Inl WriteError else Inr (t @ [b])),
       statediff_diff = (\<lambda>a b. if a = b then [] else [()]),
       set_iteration = (\<lambda>xs. xs) \<rparr>"

text \<open>
  States used as examples: runs of calls from a fresh tracker, and for the emission pass the
  states in which a call makes it (after the write of \<open>flush_stream\<close>, after the append of
  \<open>handle_state_message\<close>).
\<close>

definition fresh :: "(nat list, nat list list) tracker" where
  "fresh = init [] True default_max_watermark_lag"

definition one_cat :: "(nat list, nat list list) tracker" where
  "one_cat = run example_collaborators [RegisterStream ''cats'' []] fresh"

definition flushed_cat :: "(nat list, nat list list) tracker" where
  "flushed_cat =
     run example_collaborators
       [RegisterStream ''cats'' [], HandleRecordMessage ''cats'' 5, FlushStream ''cats''] fresh"

definition cats_and_dogs :: "(nat list, nat list list) tracker" where
  "cats_and_dogs =
     run example_collaborators
       [RegisterStream ''cats'' [], RegisterStream ''dogs'' [], RegisterStream ''birds'' [],
        HandleRecordMessage ''cats'' 5, HandleRecordMessage ''dogs'' 6,
        HandleRecordMessage ''cats'' 7, FlushStreamsIfRequired False,
        HandleRecordMessage ''dogs'' 8, FlushStream ''dogs''] fresh"

definition three_pending :: "(nat list, nat list list) tracker" where
  "three_pending =
     snd (write_batch_and_update_watermarks example_collaborators ''dogs''
       (run example_collaborators
          [RegisterStream ''cats'' [], RegisterStream ''dogs'' [],
           HandleRecordMessage ''cats'' 5,
           HandleStateMessage [(''value'', JDict [(''bookmark'', JInt 1)])],
           HandleRecordMessage ''dogs'' 6,
           HandleStateMessage [(''value'', JDict [(''bookmark'', JInt 2)])],
           HandleStateMessage [(''value'', JDict [(''bookmark'', JInt 3)])],
           HandleRecordMessage ''cats'' 7,
           HandleStateMessage [(''value'', JDict [(''bookmark'', JInt 4)])],
           FlushStream ''cats''] fresh))"

definition bookmark_then_empty :: "(nat list, nat list list) tracker" where
  "bookmark_then_empty =
     (run example_collaborators
        [HandleStateMessage [(''value'', JDict [(''bookmark'', JInt 1)])]] fresh)
     \<lparr> state_queue := [\<lparr> state = JDict [], watermark = 0 \<rparr>] \<rparr>"

definition bookmark_repeated :: "(nat list, nat list list) tracker" where
  "bookmark_repeated =
     (run example_collaborators
        [HandleStateMessage [(''value'', JDict [(''bookmark'', JInt 1)])]] fresh)
     \<lparr> state_queue := [\<lparr> state = JDict [(''bookmark'', JInt 1)], watermark = 0 \<rparr>] \<rparr>"

definition cat_flushed_dog_silent :: "(nat list, nat list list) tracker" where
  "cat_flushed_dog_silent =
     run example_collaborators
       [RegisterStream ''cats'' [], RegisterStream ''dogs'' [],
        HandleRecordMessage ''cats'' 5, FlushStream ''cats''] fresh"

definition lagging_no_checkpoint :: "(nat list, nat list list) tracker" where
  "lagging_no_checkpoint =
     run example_collaborators
       [RegisterStream ''cats'' [], HandleRecordMessage ''cats'' 5] (init [] True 0)"

definition lagging_with_checkpoint :: "(nat list, nat list list) tracker" where
  "lagging_with_checkpoint =
     run example_collaborators
       [RegisterStream ''cats'' [], RegisterStream ''dogs'' [],
        HandleRecordMessage ''cats'' 5,
        HandleStateMessage [(''value'', JDict [(''bookmark'', JInt 1)])]] (init [] True 0)"

definition dogs_unwritable :: "(nat list, nat list list) tracker" where
  "dogs_unwritable =
     run example_collaborators
       [RegisterStream ''cats'' [], RegisterStream ''dogs'' [], RegisterStream ''birds'' [],
        HandleRecordMessage ''cats'' 5, HandleRecordMessage ''dogs'' 0,
        HandleRecordMessage ''birds'' 6,
        HandleStateMessage [(''value'', JDict [(''bookmark'', JInt 1)])]] fresh"

definition cats_written :: "(nat list, nat list list) tracker" where
  "cats_written = snd (write_batches example_collaborators [''cats''] dogs_unwritable)"

section \<open>Invariants of the tracker\<close>

text \<open>
  The three dicts have distinct keys; a stream has a flush watermark exactly when it is
  registered and an add watermark exactly when it has received a record; add watermarks lie
  between 1 and the message counter; a flush watermark lies between 0 and the add watermark;
  the queue is in ascending watermark order, below the message counter.
\<close>

definition keys_inv :: "('b, 't) tracker \<Rightarrow> bool" where
  "keys_inv s \<longleftrightarrow>
     distinct (map fst (streams s)) \<and>
     distinct (map fst (stream_add_watermarks s)) \<and>
     distinct (map fst (stream_flush_watermarks s)) \<and>
     fst ` set (stream_flush_watermarks s) = fst ` set (streams s) \<and>
     fst ` set (stream_add_watermarks s) = streams_added_to s \<and>
     streams_added_to s \<subseteq> fst ` set (streams s)"

definition add_inv :: "('b, 't) tracker \<Rightarrow> bool" where
  "add_inv s \<longleftrightarrow>
     0 \<le> message_counter s \<and>
     (\<forall>k a. map_of (stream_add_watermarks s) k = Some a \<longrightarrow> 1 \<le> a \<and> a \<le> message_counter s)"

definition flush_inv :: "('b, 't) tracker \<Rightarrow> bool" where
  "flush_inv s \<longleftrightarrow>
     (\<forall>k f. map_of (stream_flush_watermarks s) k = Some f \<longrightarrow>
        0 \<le> f \<and> f \<le> dict_get (stream_add_watermarks s) k 0)"

definition queue_inv :: "('b, 't) tracker \<Rightarrow> bool" where
  "queue_inv s \<longleftrightarrow>
     sorted (map watermark (state_queue s)) \<and>
     (\<forall>q \<in> set (state_queue s). watermark q \<le> message_counter s)"

definition tracker_inv :: "('b, 't) tracker \<Rightarrow> bool" where
  "tracker_inv s \<longleftrightarrow> keys_inv s \<and> add_inv s \<and> flush_inv s \<and> queue_inv s"

section \<open>Basic facts\<close>

lemmas tracker_defs =
  init_def register_stream_def handle_record_message_def handle_state_message_def
  flush_stream_def flush_streams_if_required_def write_batch_and_update_watermarks_def
  emit_safe_queued_states_def safe_flush_threshold_def min_default_def dict_get_def
  streams_to_flush_def full_or_forced_def lag_exceeded_def effective_force_def set_add_def
  last_or_empty_def example_collaborators_def fresh_def default_max_watermark_lag_def

lemma pop_safe_fst:
  "fst (pop_safe force thr q e) = dropWhile (\<lambda>x. force \<or> watermark x \<le> thr) q"
  by (induction q arbitrary: e) auto

lemma pop_safe_snd:
  "snd (pop_safe force thr q e) =
     (if popped force thr q = [] then e else Some (state (last (popped force thr q))))"
  by (induction q arbitrary: e) (auto simp: popped_def)

lemma pop_safe_eq:
  "pop_safe force thr q e =
     (dropWhile (\<lambda>x. force \<or> watermark x \<le> thr) q,
      if popped force thr q = [] then e else Some (state (last (popped force thr q))))"
  using pop_safe_fst [of force thr q e] pop_safe_snd [of force thr q e]
  by (simp add: prod_eq_iff)

lemma min_default_Min:
  assumes "xs \<noteq> []"
  shows "min_default xs d = Min (set xs)"
proof (cases xs)
  case Nil
  with assms show ?thesis by simp
next
  case (Cons y ys)
  then show ?thesis
    using Min.set_eq_fold [of y ys] by (simp add: min_default_def)
qed

lemma min_default_Nil: "min_default [] d = d"
  by (simp add: min_default_def)

lemma emit_frame:
  "target (emit_safe_queued_states c force s) = target s"
  "emit_states (emit_safe_queued_states c force s) = emit_states s"
  "max_watermark_lag (emit_safe_queued_states c force s) = max_watermark_lag s"
  "streams (emit_safe_queued_states c force s) = streams s"
  "stream_add_watermarks (emit_safe_queued_states c force s) = stream_add_watermarks s"
  "stream_flush_watermarks (emit_safe_queued_states c force s) = stream_flush_watermarks s"
  "streams_added_to (emit_safe_queued_states c force s) = streams_added_to s"
  "message_counter (emit_safe_queued_states c force s) = message_counter s"
  by (simp_all add: emit_safe_queued_states_def Let_def split: prod.splits option.splits)

lemma emit_queue:
  "state_queue (emit_safe_queued_states c force s) =
     dropWhile (\<lambda>x. force \<or> watermark x \<le> safe_flush_threshold s) (state_queue s)"
  by (simp add: emit_safe_queued_states_def Let_def pop_safe_eq split: option.splits)

lemma emit_threshold:
  "safe_flush_threshold (emit_safe_queued_states c force s) = safe_flush_threshold s"
  by (simp add: safe_flush_threshold_def emit_frame)

lemma map_of_keys: "(k \<in> fst ` set al) = (map_of al k \<noteq> None)"
  by (simp add: map_of_eq_None_iff)

lemma tracker_inv_init: "tracker_inv (init tgt emit lag)"
  by (simp add: tracker_inv_def keys_inv_def add_inv_def flush_inv_def queue_inv_def init_def)

lemma keys_inv_register: "keys_inv s \<Longrightarrow> keys_inv (register_stream stream b s)"
  by (auto simp: keys_inv_def register_stream_def distinct_update dom_update)

lemma add_inv_register: "add_inv s \<Longrightarrow> add_inv (register_stream stream b s)"
  by (simp add: add_inv_def register_stream_def)

lemma add_invD:
  "add_inv s \<Longrightarrow> map_of (stream_add_watermarks s) k = Some a \<Longrightarrow> 1 \<le> a \<and> a \<le> message_counter s"
  unfolding add_inv_def by blast

lemma dict_get_bounds:
  assumes "add_inv s"
  shows "0 \<le> dict_get (stream_add_watermarks s) k 0"
    and "dict_get (stream_add_watermarks s) k 0 \<le> message_counter s"
proof -
  show "0 \<le> dict_get (stream_add_watermarks s) k 0"
  proof (cases "map_of (stream_add_watermarks s) k")
    case None
    then show ?thesis by (simp add: dict_get_def)
  next
    case (Some a)
    with add_invD [OF assms Some] show ?thesis by (simp add: dict_get_def)
  qed
  show "dict_get (stream_add_watermarks s) k 0 \<le> message_counter s"
  proof (cases "map_of (stream_add_watermarks s) k")
    case None
    with assms show ?thesis by (simp add: dict_get_def add_inv_def)
  next
    case (Some a)
    with add_invD [OF assms Some] show ?thesis by (simp add: dict_get_def)
  qed
qed

lemma map_of_Some_key: "map_of al k = Some v \<Longrightarrow> k \<in> fst ` set al"
  by (metis domI dom_map_of_conv_image_fst)

lemma flush_inv_register:
  "add_inv s \<Longrightarrow> flush_inv s \<Longrightarrow> flush_inv (register_stream stream b s)"
  using dict_get_bounds(1) [of s]
  by (simp add: flush_inv_def register_stream_def update_conv' del: map_of_eq_Some_iff)

lemma queue_inv_register: "queue_inv s \<Longrightarrow> queue_inv (register_stream stream b s)"
  by (simp add: queue_inv_def register_stream_def)

lemma tracker_inv_register: "tracker_inv s \<Longrightarrow> tracker_inv (register_stream stream b s)"
  by (simp add: tracker_inv_def keys_inv_register add_inv_register flush_inv_register
        queue_inv_register)

lemma queue_inv_emit:
  assumes "queue_inv s"
  shows "queue_inv (emit_safe_queued_states c force s)"
proof -
  let ?P = "\<lambda>x. force \<or> watermark x \<le> safe_flush_threshold s"
  have "sorted (map watermark (dropWhile ?P (state_queue s)))"
    using assms sorted_wrt_dropWhile [of "\<lambda>x y. watermark x \<le> watermark y" "state_queue s" ?P]
    by (simp add: queue_inv_def sorted_map)
  moreover have "\<And>x. x \<in> set (dropWhile ?P (state_queue s)) \<Longrightarrow> x \<in> set (state_queue s)"
    by (rule set_dropWhileD)
  ultimately show ?thesis
    using assms by (auto simp: queue_inv_def emit_queue emit_frame)
qed

lemma tracker_inv_emit: "tracker_inv s \<Longrightarrow> tracker_inv (emit_safe_queued_states c force s)"
  by (simp add: tracker_inv_def queue_inv_emit keys_inv_def add_inv_def flush_inv_def emit_frame)

lemma keys_inv_write:
  "keys_inv s \<Longrightarrow> keys_inv (snd (write_batch_and_update_watermarks c stream s))"
  by (auto simp: keys_inv_def write_batch_and_update_watermarks_def distinct_update dom_update
           split: option.splits sum.splits simp del: map_of_eq_Some_iff dest: map_of_Some_key)

lemma add_inv_write:
  "add_inv s \<Longrightarrow> add_inv (snd (write_batch_and_update_watermarks c stream s))"
  by (simp add: add_inv_def write_batch_and_update_watermarks_def split: option.splits sum.splits)

lemma flush_inv_write:
  "add_inv s \<Longrightarrow> flush_inv s \<Longrightarrow> flush_inv (snd (write_batch_and_update_watermarks c stream s))"
  using dict_get_bounds(1) [of s]
  by (simp add: flush_inv_def write_batch_and_update_watermarks_def update_conv'
           split: option.splits sum.splits  del: map_of_eq_Some_iff)

lemma queue_inv_write:
  "queue_inv s \<Longrightarrow> queue_inv (snd (write_batch_and_update_watermarks c stream s))"
  by (simp add: queue_inv_def write_batch_and_update_watermarks_def split: option.splits sum.splits)

lemma tracker_inv_write:
  "tracker_inv s \<Longrightarrow> tracker_inv (snd (write_batch_and_update_watermarks c stream s))"
  by (simp add: tracker_inv_def keys_inv_write add_inv_write flush_inv_write queue_inv_write)

lemma keys_inv_record:
  "keys_inv s \<Longrightarrow> keys_inv (snd (handle_record_message c stream r s))"
  by (auto simp: keys_inv_def handle_record_message_def distinct_update dom_update
           split: option.splits simp del: map_of_eq_Some_iff dest: map_of_Some_key)

lemma add_inv_record:
  "add_inv (snd (handle_record_message c stream r s))" if "add_inv s"
proof (cases "map_of (streams s) stream")
  case None
  then show ?thesis using that by (simp add: handle_record_message_def)
next
  case (Some b)
  have "1 \<le> a \<and> a \<le> message_counter s + 1"
    if "((map_of (stream_add_watermarks s))(stream \<mapsto> message_counter s + 1)) k = Some a" for k a
  proof (cases "k = stream")
    case True
    with that \<open>add_inv s\<close> show ?thesis by (auto simp: add_inv_def)
  next
    case False
    with that add_invD [OF \<open>add_inv s\<close>, of k a] show ?thesis by simp
  qed
  with Some \<open>add_inv s\<close> show ?thesis
    by (simp add: add_inv_def handle_record_message_def update_conv' del: map_of_eq_Some_iff)
qed

lemma flush_inv_record:
  assumes "add_inv s" "flush_inv s"
  shows "flush_inv (snd (handle_record_message c stream r s))"
proof (cases "map_of (streams s) stream")
  case None
  with assms show ?thesis by (simp add: handle_record_message_def)
next
  case (Some b)
  have "f \<le> dict_get (AList.update stream (message_counter s + 1) (stream_add_watermarks s)) k 0"
    if "map_of (stream_flush_watermarks s) k = Some f" for k f
  proof -
    from that assms have le: "f \<le> dict_get (stream_add_watermarks s) k 0"
      by (simp add: flush_inv_def del: map_of_eq_Some_iff)
    show ?thesis
    proof (cases "k = stream")
      case True
      have "dict_get (stream_add_watermarks s) stream 0 \<le> message_counter s + 1"
        using dict_get_bounds(2) [OF assms(1), of stream] by simp
      with le True show ?thesis by (simp add: dict_get_def update_conv')
    next
      case False
      with le show ?thesis by (simp add: dict_get_def update_conv')
    qed
  qed
  with Some assms(2) show ?thesis
    by (simp add: flush_inv_def handle_record_message_def del: map_of_eq_Some_iff)
qed

lemma queue_inv_record:
  "queue_inv s \<Longrightarrow> queue_inv (snd (handle_record_message c stream r s))"
  by (fastforce simp: queue_inv_def handle_record_message_def split: option.splits)

lemma tracker_inv_record:
  "tracker_inv s \<Longrightarrow> tracker_inv (snd (handle_record_message c stream r s))"
  by (simp add: tracker_inv_def keys_inv_record add_inv_record flush_inv_record queue_inv_record)

lemma tracker_inv_write_batches:
  "tracker_inv s \<Longrightarrow> tracker_inv (snd (write_batches c xs s))"
proof (induction xs arbitrary: s)
  case Nil
  then show ?case by simp
next
  case (Cons x xs)
  show ?case
  proof (cases "write_batch_and_update_watermarks c x s")
    case (Pair e s')
    with tracker_inv_write [OF Cons.prems, of c x] have inv': "tracker_inv s'" by simp
    show ?thesis
    proof (cases e)
      case None
      with Pair Cons.IH [OF inv'] show ?thesis by simp
    next
      case (Some err)
      with Pair inv' show ?thesis by simp
    qed
  qed
qed

lemma tracker_inv_flush_stream:
  assumes "tracker_inv s"
  shows "tracker_inv (snd (flush_stream c stream s))"
proof (cases "write_batch_and_update_watermarks c stream s")
  case (Pair e s')
  with tracker_inv_write [OF assms, of c stream] have "tracker_inv s'" by simp
  with Pair show ?thesis
    by (cases e) (simp_all add: flush_stream_def tracker_inv_emit)
qed

lemma tracker_inv_flush_streams_if_required:
  assumes "tracker_inv s"
  shows "tracker_inv (snd (flush_streams_if_required c force s))"
proof (cases "write_batches c (set_iteration c (streams_to_flush c force s)) s")
  case (Pair e s')
  with tracker_inv_write_batches [OF assms, of c "set_iteration c (streams_to_flush c force s)"]
  have "tracker_inv s'" by simp
  with Pair show ?thesis
    by (cases e) (simp_all add: flush_streams_if_required_def tracker_inv_emit)
qed

lemma tracker_inv_enqueue:
  assumes "tracker_inv s"
  shows "tracker_inv (s\<lparr> state_queue := state_queue s @ [\<lparr> state = v, watermark = message_counter s \<rparr>] \<rparr>)"
  using assms
  by (auto simp: tracker_inv_def keys_inv_def add_inv_def flush_inv_def queue_inv_def sorted_append
           simp del: map_of_eq_Some_iff)

lemma tracker_inv_handle_state_message:
  assumes "tracker_inv s"
  shows "tracker_inv (snd (handle_state_message c line_data s))"
  using assms
  by (simp add: handle_state_message_def tracker_inv_emit tracker_inv_enqueue
        split: option.splits)

lemma tracker_inv_call:
  "tracker_inv s \<Longrightarrow> tracker_inv (snd (call_tracker c x s))"
  by (cases x)
    (simp_all add: tracker_inv_register tracker_inv_flush_stream tracker_inv_record
       tracker_inv_flush_streams_if_required tracker_inv_handle_state_message)

lemma tracker_inv_run: "tracker_inv s \<Longrightarrow> tracker_inv (run c calls s)"
  by (induction calls arbitrary: s) (simp_all add: tracker_inv_call)

lemma tracker_inv_reachable: "tracker_inv (run c calls (init tgt emit lag))"
  by (rule tracker_inv_run [OF tracker_inv_init])

lemma tracker_inv_sorted_queue: "tracker_inv s \<Longrightarrow> sorted (map watermark (state_queue s))"
  by (simp add: tracker_inv_def queue_inv_def)

section \<open>The claims\<close>

subsection \<open>C4: the flush watermark never passes the add watermark\<close>

text \<open>
  C4. In every state that a sequence of \<open>register_stream\<close>, \<open>handle_record_message\<close>,
  \<open>handle_state_message\<close>, \<open>flush_stream\<close> and \<open>flush_streams_if_required\<close> calls leads
  to from a fresh tracker, every registered stream has a flush watermark, and it is at most
  the stream's add watermark, an absent add watermark counting as 0.
\<close>

theorem flush_watermark_le_add_watermark:
  assumes "map_of (streams (run c calls (init tgt emit lag))) stream = Some b"
  shows "\<exists>fw. map_of (stream_flush_watermarks (run c calls (init tgt emit lag))) stream = Some fw \<and>
              fw \<le> dict_get (stream_add_watermarks (run c calls (init tgt emit lag))) stream 0"
proof -
  let ?s = "run c calls (init tgt emit lag)"
  have inv: "tracker_inv ?s" by (rule tracker_inv_reachable)
  from assms have "stream \<in> fst ` set (streams ?s)" by (rule map_of_Some_key)
  with inv have "stream \<in> fst ` set (stream_flush_watermarks ?s)"
    by (simp add: tracker_inv_def keys_inv_def)
  then obtain fw where fw: "map_of (stream_flush_watermarks ?s) stream = Some fw"
    by (auto simp: map_of_keys)
  with inv have "fw \<le> dict_get (stream_add_watermarks ?s) stream 0"
    by (simp add: tracker_inv_def flush_inv_def del: map_of_eq_Some_iff)
  with fw show ?thesis by blast
qed

theorem flush_watermark_le_add_watermark_witness:
  "map_of (streams (run example_collaborators
       [RegisterStream ''cats'' [], HandleRecordMessage ''cats'' 1, HandleRecordMessage ''cats'' 2,
        FlushStream ''cats'', HandleRecordMessage ''cats'' 3]
       (init [] True 1000000))) ''cats'' = Some [3] \<and>
   map_of (stream_flush_watermarks (run example_collaborators
       [RegisterStream ''cats'' [], HandleRecordMessage ''cats'' 1, HandleRecordMessage ''cats'' 2,
        FlushStream ''cats'', HandleRecordMessage ''cats'' 3]
       (init [] True 1000000))) ''cats'' = Some 2 \<and>
   dict_get (stream_add_watermarks (run example_collaborators
       [RegisterStream ''cats'' [], HandleRecordMessage ''cats'' 1, HandleRecordMessage ''cats'' 2,
        FlushStream ''cats'', HandleRecordMessage ''cats'' 3]
       (init [] True 1000000))) ''cats'' 0 = 3 \<and>
   (\<exists>fw. map_of (stream_flush_watermarks (run example_collaborators
       [RegisterStream ''cats'' [], HandleRecordMessage ''cats'' 1, HandleRecordMessage ''cats'' 2,
        FlushStream ''cats'', HandleRecordMessage ''cats'' 3]
       (init [] True 1000000))) ''cats'' = Some fw \<and>
     fw \<le> dict_get (stream_add_watermarks (run example_collaborators
       [RegisterStream ''cats'' [], HandleRecordMessage ''cats'' 1, HandleRecordMessage ''cats'' 2,
        FlushStream ''cats'', HandleRecordMessage ''cats'' 3]
       (init [] True 1000000))) ''cats'' 0)"
proof -
  let ?s = "run example_collaborators
       [RegisterStream ''cats'' [], HandleRecordMessage ''cats'' 1, HandleRecordMessage ''cats'' 2,
        FlushStream ''cats'', HandleRecordMessage ''cats'' 3]
       (init [] True 1000000)"
  have h: "map_of (streams ?s) ''cats'' = Some [3]"
    by (simp add: tracker_defs)
  have f: "map_of (stream_flush_watermarks ?s) ''cats'' = Some 2"
    and a: "dict_get (stream_add_watermarks ?s) ''cats'' 0 = 3"
    by (simp_all add: tracker_defs)
  from h f a flush_watermark_le_add_watermark [OF h] show ?thesis by blast
qed

subsection \<open>C10: a record for an unknown stream\<close>

text \<open>
  C10. \<open>handle_record_message\<close> raises exactly when the stream is not a key of
  \<open>streams\<close>; the error is the \<open>TargetError\<close> naming the stream and the tracker is left
  as it was. For a registered stream it returns normally, the message counter has grown by
  one, the add watermark of the stream is the new counter and the stream is in
  \<open>streams_added_to\<close>.
\<close>

theorem handle_record_message_registered_or_error:
  "(stream \<notin> fst ` set (streams s) \<longrightarrow>
      handle_record_message c stream r s =
        (Some (TargetError (''A record for stream '' @ stream @
                            '' was encountered before a corresponding schema'')), s)) \<and>
   (stream \<in> fst ` set (streams s) \<longrightarrow>
      fst (handle_record_message c stream r s) = None \<and>
      message_counter (snd (handle_record_message c stream r s)) = message_counter s + 1 \<and>
      map_of (stream_add_watermarks (snd (handle_record_message c stream r s))) stream =
        Some (message_counter s + 1) \<and>
      streams_added_to (snd (handle_record_message c stream r s)) =
        insert stream (streams_added_to s)) \<and>
   ((\<exists>e. fst (handle_record_message c stream r s) = Some e) \<longleftrightarrow>
      stream \<notin> fst ` set (streams s))"
  by (cases "map_of (streams s) stream")
     (auto simp: handle_record_message_def map_of_keys update_conv' simp del: map_of_eq_Some_iff)

theorem handle_record_message_registered_or_error_witness:
  "''dogs'' \<notin> fst ` set (streams one_cat) \<and>
   handle_record_message example_collaborators ''dogs'' 7 one_cat =
     (Some (TargetError ''A record for stream dogs was encountered before a corresponding schema''),
      one_cat) \<and>
   ''cats'' \<in> fst ` set (streams one_cat) \<and>
   fst (handle_record_message example_collaborators ''cats'' 7 one_cat) = None \<and>
   message_counter (snd (handle_record_message example_collaborators ''cats'' 7 one_cat)) = 1 \<and>
   map_of (stream_add_watermarks (snd (handle_record_message example_collaborators ''cats'' 7 one_cat)))
     ''cats'' = Some 1 \<and>
   streams_added_to (snd (handle_record_message example_collaborators ''cats'' 7 one_cat)) = {''cats''}"
proof -
  have d: "''dogs'' \<notin> fst ` set (streams one_cat)"
    and k: "''cats'' \<in> fst ` set (streams one_cat)"
    and z: "message_counter one_cat = 0" "streams_added_to one_cat = {}"
    by (simp_all add: one_cat_def tracker_defs)
  from d k z
    handle_record_message_registered_or_error [of "''dogs''" one_cat example_collaborators 7]
    handle_record_message_registered_or_error [of "''cats''" one_cat example_collaborators 7]
  show ?thesis by simp
qed

subsection \<open>C7: registering a stream again\<close>

text \<open>
  C7 says that registering a stream again resets neither watermark. The method assigns 0
  to the flush watermark on every call, so after a flush has moved the flush watermark of
  \<open>cats\<close> to 1, a second registration puts it back to 0.
\<close>

theorem register_stream_resets_flush_watermark:
  "''cats'' \<in> fst ` set (streams flushed_cat) \<and>
   map_of (stream_flush_watermarks flushed_cat) ''cats'' = Some 1 \<and>
   map_of (stream_flush_watermarks (register_stream ''cats'' [] flushed_cat)) ''cats'' = Some 0 \<and>
   map_of (stream_flush_watermarks (register_stream ''cats'' [] flushed_cat)) ''cats'' \<noteq>
     map_of (stream_flush_watermarks flushed_cat) ''cats''"
  by (simp add: flushed_cat_def tracker_defs)

text \<open>
  C7, amended. Registering a stream that is already registered replaces its handle and keeps
  the order of the streams, leaves every add watermark, the set of streams that have seen
  records and the message counter as they were, and sets the flush watermark of that stream
  to 0, the other flush watermarks staying.
\<close>

theorem register_stream_again:
  assumes "stream \<in> fst ` set (streams s)"
  shows "map fst (streams (register_stream stream b s)) = map fst (streams s) \<and>
         map_of (streams (register_stream stream b s)) = (map_of (streams s))(stream \<mapsto> b) \<and>
         stream_add_watermarks (register_stream stream b s) = stream_add_watermarks s \<and>
         streams_added_to (register_stream stream b s) = streams_added_to s \<and>
         message_counter (register_stream stream b s) = message_counter s \<and>
         map_of (stream_flush_watermarks (register_stream stream b s)) =
           (map_of (stream_flush_watermarks s))(stream \<mapsto> 0)"
  using assms by (simp add: register_stream_def update_conv' update_keys)

theorem register_stream_again_witness:
  "''cats'' \<in> fst ` set (streams flushed_cat) \<and>
   map fst (streams (register_stream ''cats'' [9] flushed_cat)) = [''cats''] \<and>
   map_of (streams (register_stream ''cats'' [9] flushed_cat)) ''cats'' = Some [9] \<and>
   stream_add_watermarks (register_stream ''cats'' [9] flushed_cat) = [(''cats'', 1)] \<and>
   map_of (stream_flush_watermarks (register_stream ''cats'' [9] flushed_cat)) ''cats'' = Some 0"
proof -
  have k: "''cats'' \<in> fst ` set (streams flushed_cat)"
    and v: "map fst (streams flushed_cat) = [''cats'']"
       "stream_add_watermarks flushed_cat = [(''cats'', 1)]"
    by (simp_all add: flushed_cat_def tracker_defs)
  from k v register_stream_again [OF k, of "[9]"] show ?thesis by simp
qed

subsection \<open>C2: the safe threshold\<close>

lemma valid_watermarks_set:
  assumes "distinct (map fst al)" "A \<subseteq> fst ` set al"
  shows "set (map snd (filter (\<lambda>(k, w). k \<in> A) al)) = (\<lambda>k. the (map_of al k)) ` A"
proof (intro set_eqI iffI)
  fix w assume "w \<in> set (map snd (filter (\<lambda>(k, w). k \<in> A) al))"
  then obtain k where "(k, w) \<in> set al" "k \<in> A" by auto
  with assms(1) show "w \<in> (\<lambda>k. the (map_of al k)) ` A" by force
next
  fix w assume "w \<in> (\<lambda>k. the (map_of al k)) ` A"
  then obtain k where k: "k \<in> A" "w = the (map_of al k)" by blast
  with assms(2) obtain v where "(k, v) \<in> set al" by auto
  with assms(1) k have "(k, w) \<in> set al" by simp
  with k(1) show "w \<in> set (map snd (filter (\<lambda>(k, w). k \<in> A) al))" by force
qed

lemma threshold_Min:
  assumes "tracker_inv s"
  shows "safe_flush_threshold s =
           (if streams_added_to s = {} then 0
            else Min ((\<lambda>k. the (map_of (stream_flush_watermarks s) k)) ` streams_added_to s))"
proof -
  let ?A = "streams_added_to s"
  let ?al = "stream_flush_watermarks s"
  let ?xs = "map snd (filter (\<lambda>(k, w). k \<in> ?A) ?al)"
  from assms have d: "distinct (map fst ?al)" and sub: "?A \<subseteq> fst ` set ?al"
    by (simp_all add: tracker_inv_def keys_inv_def)
  have st: "set ?xs = (\<lambda>k. the (map_of ?al k)) ` ?A"
    by (rule valid_watermarks_set [OF d sub])
  show ?thesis
  proof (cases "?A = {}")
    case True
    with st have "?xs = []" by simp
    with True show ?thesis by (simp add: safe_flush_threshold_def min_default_Nil)
  next
    case False
    have ne: "?xs \<noteq> []"
    proof
      assume "?xs = []"
      then have "set ?xs = {}" by (simp only: list.set)
      with False show False unfolding st by simp
    qed
    from min_default_Min [OF ne, of 0] st False show ?thesis
      by (simp add: safe_flush_threshold_def)
  qed
qed

text \<open>
  C2. In every state a run from a fresh tracker leads to, each stream that has received a
  record is registered and has a flush watermark, and \<open>_safe_flush_threshold\<close> returns the
  least flush watermark among those streams, or 0 when no stream has received a record.
  Streams that were registered and never received a record do not enter the minimum.
\<close>

theorem safe_flush_threshold_is_min_over_fed_streams:
  "(\<forall>k \<in> streams_added_to (run c calls (init tgt emit lag)).
       k \<in> fst ` set (streams (run c calls (init tgt emit lag))) \<and>
       map_of (stream_flush_watermarks (run c calls (init tgt emit lag))) k \<noteq> None) \<and>
   safe_flush_threshold (run c calls (init tgt emit lag)) =
     (if streams_added_to (run c calls (init tgt emit lag)) = {} then 0
      else Min ((\<lambda>k. the (map_of (stream_flush_watermarks (run c calls (init tgt emit lag))) k))
                  ` streams_added_to (run c calls (init tgt emit lag))))"
proof -
  let ?s = "run c calls (init tgt emit lag)"
  have inv: "tracker_inv ?s" by (rule tracker_inv_reachable)
  then have "streams_added_to ?s \<subseteq> fst ` set (streams ?s)"
    and "fst ` set (stream_flush_watermarks ?s) = fst ` set (streams ?s)"
    by (simp_all add: tracker_inv_def keys_inv_def)
  then have "\<forall>k \<in> streams_added_to ?s. k \<in> fst ` set (streams ?s) \<and>
       map_of (stream_flush_watermarks ?s) k \<noteq> None"
    unfolding map_of_keys [symmetric] by blast
  with threshold_Min [OF inv] show ?thesis by blast
qed

lemma cats_and_dogs_fields:
  "streams_added_to cats_and_dogs = {''dogs'', ''cats''}"
  "stream_flush_watermarks cats_and_dogs = [(''cats'', 3), (''dogs'', 4), (''birds'', 0)]"
  "map fst (streams cats_and_dogs) = [''cats'', ''dogs'', ''birds'']"
  by (auto simp add: cats_and_dogs_def tracker_defs)

theorem safe_flush_threshold_is_min_over_fed_streams_witness:
  "streams_added_to cats_and_dogs = {''dogs'', ''cats''} \<and>
   stream_flush_watermarks cats_and_dogs = [(''cats'', 3), (''dogs'', 4), (''birds'', 0)] \<and>
   safe_flush_threshold cats_and_dogs = 3"
  using safe_flush_threshold_is_min_over_fed_streams
    [of example_collaborators
        "[RegisterStream ''cats'' [], RegisterStream ''dogs'' [], RegisterStream ''birds'' [],
          HandleRecordMessage ''cats'' 5, HandleRecordMessage ''dogs'' 6,
          HandleRecordMessage ''cats'' 7, FlushStreamsIfRequired False,
          HandleRecordMessage ''dogs'' 8, FlushStream ''dogs'']"
        "[]" True default_max_watermark_lag]
  unfolding cats_and_dogs_def [unfolded fresh_def, symmetric]
  by (simp add: cats_and_dogs_fields)

subsection \<open>C5: only the latest safe checkpoint is written\<close>

lemma emit_queue_split:
  "state_queue s =
     popped force (safe_flush_threshold s) (state_queue s) @
     state_queue (emit_safe_queued_states c force s)"
  by (simp add: emit_queue popped_def)

lemma popped_unique:
  assumes "state_queue s = ps @ state_queue (emit_safe_queued_states c force s)"
  shows "ps = popped force (safe_flush_threshold s) (state_queue s)"
proof -
  from assms emit_queue_split [of s force c]
  have "ps @ state_queue (emit_safe_queued_states c force s) =
        popped force (safe_flush_threshold s) (state_queue s) @
        state_queue (emit_safe_queued_states c force s)"
    by simp
  then show ?thesis by simp
qed

lemma emit_output:
  "stdout (emit_safe_queued_states c force s) =
     (case snd (pop_safe force (safe_flush_threshold s) (state_queue s) None) of
        None \<Rightarrow> stdout s
      | Some e \<Rightarrow>
          if truthy e \<and> 0 < length (statediff_diff c e (last_or_empty (last_emitted_state s)))
          then stdout s @ [e] else stdout s)"
  by (simp add: emit_safe_queued_states_def Let_def split: prod.splits option.splits)

lemma emit_last:
  "last_emitted_state (emit_safe_queued_states c force s) =
     (case snd (pop_safe force (safe_flush_threshold s) (state_queue s) None) of
        None \<Rightarrow> last_emitted_state s
      | Some e \<Rightarrow> if truthy e then Some e else last_emitted_state s)"
  by (simp add: emit_safe_queued_states_def Let_def split: prod.splits option.splits)

lemma sorted_takeWhile_filter:
  assumes "sorted (map f xs)"
  shows "takeWhile (\<lambda>x. f x \<le> (t::int)) xs = filter (\<lambda>x. f x \<le> t) xs"
    and "dropWhile (\<lambda>x. f x \<le> t) xs = filter (\<lambda>x. \<not> f x \<le> t) xs"
  using assms by (induction xs) (auto intro!: filter_False [symmetric] filter_True [symmetric])

text \<open>
  C5. One pass of \<open>_emit_safe_queued_states\<close> over a queue in ascending watermark order
  pops from the front exactly the entries that are safe, that is those whose watermark is at
  most the threshold, or all of them under \<open>force\<close>, and leaves the others. The output
  grows by at most one line, and that line is the payload of the last entry popped; the
  entries popped before it produce no output. Every run keeps the queue in that order
  (\<open>tracker_inv_sorted_queue\<close>; \<open>tracker_inv\<close> holds in the states in which a pass runs by
  \<open>tracker_inv_reachable\<close>, \<open>tracker_inv_write\<close>, \<open>tracker_inv_write_batches\<close> and
  \<open>tracker_inv_enqueue\<close>).
\<close>

theorem only_latest_wins:
  assumes "sorted (map watermark (state_queue s))"
  shows "state_queue s =
           filter (\<lambda>e. force \<or> watermark e \<le> safe_flush_threshold s) (state_queue s) @
           state_queue (emit_safe_queued_states c force s) \<and>
         state_queue (emit_safe_queued_states c force s) =
           filter (\<lambda>e. \<not> (force \<or> watermark e \<le> safe_flush_threshold s)) (state_queue s) \<and>
         (stdout (emit_safe_queued_states c force s) = stdout s \<or>
          filter (\<lambda>e. force \<or> watermark e \<le> safe_flush_threshold s) (state_queue s) \<noteq> [] \<and>
          stdout (emit_safe_queued_states c force s) =
            stdout s @
            [state (last (filter (\<lambda>e. force \<or> watermark e \<le> safe_flush_threshold s)
                            (state_queue s)))])"
proof -
  let ?P = "\<lambda>e. force \<or> watermark e \<le> safe_flush_threshold s"
  have tw: "popped force (safe_flush_threshold s) (state_queue s) = filter ?P (state_queue s)"
    using sorted_takeWhile_filter(1) [OF assms] by (cases force) (simp_all add: popped_def)
  have dw: "dropWhile ?P (state_queue s) = filter (\<lambda>e. \<not> ?P e) (state_queue s)"
    using sorted_takeWhile_filter(2) [OF assms] by (cases force) simp_all
  have 1: "state_queue s = filter ?P (state_queue s) @ state_queue (emit_safe_queued_states c force s)"
    using emit_queue_split [of s force c] by (simp only: tw)
  have 2: "state_queue (emit_safe_queued_states c force s) =
             filter (\<lambda>e. \<not> ?P e) (state_queue s)"
    by (simp only: emit_queue dw)
  have 3: "stdout (emit_safe_queued_states c force s) = stdout s \<or>
           filter ?P (state_queue s) \<noteq> [] \<and>
           stdout (emit_safe_queued_states c force s) =
             stdout s @ [state (last (filter ?P (state_queue s)))]"
    unfolding tw [symmetric] by (simp add: emit_output pop_safe_snd)
  from 1 2 3 show ?thesis by blast
qed

lemma three_pending_queue:
  "state_queue three_pending =
     [\<lparr>state = JDict [(''bookmark'', JInt 1)], watermark = 1\<rparr>,
      \<lparr>state = JDict [(''bookmark'', JInt 2)], watermark = 2\<rparr>,
      \<lparr>state = JDict [(''bookmark'', JInt 3)], watermark = 2\<rparr>,
      \<lparr>state = JDict [(''bookmark'', JInt 4)], watermark = 3\<rparr>]"
  by code_simp

lemma three_pending_threshold: "safe_flush_threshold three_pending = 2"
  by code_simp

lemma three_pending_stdout: "stdout three_pending = []"
  by code_simp

theorem only_latest_wins_witness:
  "sorted (map watermark (state_queue three_pending)) \<and>
   state_queue three_pending =
     [\<lparr>state = JDict [(''bookmark'', JInt 1)], watermark = 1\<rparr>,
      \<lparr>state = JDict [(''bookmark'', JInt 2)], watermark = 2\<rparr>,
      \<lparr>state = JDict [(''bookmark'', JInt 3)], watermark = 2\<rparr>] @
     state_queue (emit_safe_queued_states example_collaborators False three_pending) \<and>
   state_queue (emit_safe_queued_states example_collaborators False three_pending) =
     [\<lparr>state = JDict [(''bookmark'', JInt 4)], watermark = 3\<rparr>] \<and>
   (stdout (emit_safe_queued_states example_collaborators False three_pending) = [] \<or>
    stdout (emit_safe_queued_states example_collaborators False three_pending) =
      [JDict [(''bookmark'', JInt 3)]])"
proof -
  let ?P = "\<lambda>e. False \<or> watermark e \<le> safe_flush_threshold three_pending"
  have h: "sorted (map watermark (state_queue three_pending))"
    by (simp add: three_pending_queue)
  have f: "filter ?P (state_queue three_pending) =
     [\<lparr>state = JDict [(''bookmark'', JInt 1)], watermark = 1\<rparr>,
      \<lparr>state = JDict [(''bookmark'', JInt 2)], watermark = 2\<rparr>,
      \<lparr>state = JDict [(''bookmark'', JInt 3)], watermark = 2\<rparr>]"
    by (simp add: three_pending_queue three_pending_threshold)
  have g: "filter (\<lambda>e. \<not> ?P e) (state_queue three_pending) =
     [\<lparr>state = JDict [(''bookmark'', JInt 4)], watermark = 3\<rparr>]"
    by (simp add: three_pending_queue three_pending_threshold)
  note t = only_latest_wins [OF h, of False example_collaborators, unfolded f g three_pending_stdout]
  from t have 1: "state_queue three_pending =
     [\<lparr>state = JDict [(''bookmark'', JInt 1)], watermark = 1\<rparr>,
      \<lparr>state = JDict [(''bookmark'', JInt 2)], watermark = 2\<rparr>,
      \<lparr>state = JDict [(''bookmark'', JInt 3)], watermark = 2\<rparr>] @
     state_queue (emit_safe_queued_states example_collaborators False three_pending)"
    by (rule conjunct1)
  from t have 2: "state_queue (emit_safe_queued_states example_collaborators False three_pending) =
     [\<lparr>state = JDict [(''bookmark'', JInt 4)], watermark = 3\<rparr>]"
    by (rule conjunct2 [THEN conjunct1])
  from t have 3: "stdout (emit_safe_queued_states example_collaborators False three_pending) = [] \<or>
    stdout (emit_safe_queued_states example_collaborators False three_pending) =
      [JDict [(''bookmark'', JInt 3)]]"
    by (auto dest!: conjunct2)
  from h 1 2 3 show ?thesis by (intro conjI)
qed

subsection \<open>C6: the comparison with the last emitted state\<close>

text \<open>
  C6 says that whenever an entry is popped, its payload is written if it differs from
  \<open>last_emitted_state\<close>, and becomes \<open>last_emitted_state\<close> in any case. The guard
  \<open>if emittable_state:\<close> tests the payload itself. Two STATE messages, \<open>{"bookmark": 1}\<close>
  and then \<open>{}\<close>, with no stream registered: the second call appends \<open>{}\<close> to the queue
  (the state \<open>bookmark_then_empty\<close>) and runs the pass; \<open>{}\<close> is popped, it differs from
  the last emitted state, and yet nothing is written and \<open>last_emitted_state\<close> stays.
\<close>

theorem empty_payload_is_dropped:
  "run example_collaborators
     [HandleStateMessage [(''value'', JDict [(''bookmark'', JInt 1)])],
      HandleStateMessage [(''value'', JDict [])]] fresh =
     emit_safe_queued_states example_collaborators False bookmark_then_empty \<and>
   state_queue bookmark_then_empty = [\<lparr> state = JDict [], watermark = 0 \<rparr>] \<and>
   state_queue (emit_safe_queued_states example_collaborators False bookmark_then_empty) = [] \<and>
   0 < length (statediff_diff example_collaborators (JDict [])
                 (last_or_empty (last_emitted_state bookmark_then_empty))) \<and>
   stdout (emit_safe_queued_states example_collaborators False bookmark_then_empty) =
     stdout bookmark_then_empty \<and>
   last_emitted_state (emit_safe_queued_states example_collaborators False bookmark_then_empty) =
     Some (JDict [(''bookmark'', JInt 1)]) \<and>
   last_emitted_state (emit_safe_queued_states example_collaborators False bookmark_then_empty) \<noteq>
     Some (JDict [])"
  by code_simp

text \<open>
  C6, amended. Whenever a pass pops entries \<open>ps\<close> and the payload \<open>p\<close> of the last of them
  is truthy (not \<open>{}\<close>, \<open>[]\<close>, \<open>""\<close>, \<open>0\<close>, \<open>false\<close> or \<open>null\<close>), \<open>p\<close> is written exactly when
  \<open>statediff.diff\<close> of \<open>p\<close> against \<open>last_emitted_state or {}\<close> is not empty, and
  \<open>last_emitted_state\<close> becomes \<open>p\<close> whether or not it was written. So when \<open>p\<close> was also the
  payload chosen before and \<open>statediff.diff\<close> of \<open>p\<close> against itself is empty, the second
  pass writes nothing.
\<close>

theorem dedup_against_last_emitted:
  assumes "state_queue s = ps @ state_queue (emit_safe_queued_states c force s)"
    and "ps \<noteq> []" and "p = state (last ps)" and "truthy p"
  shows "last_emitted_state (emit_safe_queued_states c force s) = Some p \<and>
         stdout (emit_safe_queued_states c force s) =
           (if 0 < length (statediff_diff c p (last_or_empty (last_emitted_state s)))
            then stdout s @ [p] else stdout s) \<and>
         (last_emitted_state s = Some p \<and> statediff_diff c p p = [] \<longrightarrow>
            stdout (emit_safe_queued_states c force s) = stdout s)"
proof -
  have ps: "ps = popped force (safe_flush_threshold s) (state_queue s)"
    by (rule popped_unique [OF assms(1)])
  with assms(2,3)
  have sel: "snd (pop_safe force (safe_flush_threshold s) (state_queue s) None) = Some p"
    by (simp add: pop_safe_snd)
  have 1: "last_emitted_state (emit_safe_queued_states c force s) = Some p"
    using assms(4) by (simp add: emit_last sel)
  have 2: "stdout (emit_safe_queued_states c force s) =
           (if 0 < length (statediff_diff c p (last_or_empty (last_emitted_state s)))
            then stdout s @ [p] else stdout s)"
    using assms(4) by (simp add: emit_output sel)
  have 3: "stdout (emit_safe_queued_states c force s) = stdout s"
    if "last_emitted_state s = Some p" "statediff_diff c p p = []"
    using that assms(4) by (simp add: 2 last_or_empty_def)
  from 1 2 3 show ?thesis by blast
qed

lemma bookmark_repeated_fields:
  "state_queue bookmark_repeated = [\<lparr> state = JDict [(''bookmark'', JInt 1)], watermark = 0 \<rparr>]"
  "state_queue (emit_safe_queued_states example_collaborators False bookmark_repeated) = []"
  "last_emitted_state bookmark_repeated = Some (JDict [(''bookmark'', JInt 1)])"
  "stdout bookmark_repeated = [JDict [(''bookmark'', JInt 1)]]"
  "statediff_diff example_collaborators (JDict [(''bookmark'', JInt 1)])
     (JDict [(''bookmark'', JInt 1)]) = []"
  by code_simp+

theorem dedup_against_last_emitted_witness:
  "state_queue bookmark_repeated =
     [\<lparr> state = JDict [(''bookmark'', JInt 1)], watermark = 0 \<rparr>] @
     state_queue (emit_safe_queued_states example_collaborators False bookmark_repeated) \<and>
   truthy (JDict [(''bookmark'', JInt 1)]) \<and>
   last_emitted_state bookmark_repeated = Some (JDict [(''bookmark'', JInt 1)]) \<and>
   last_emitted_state (emit_safe_queued_states example_collaborators False bookmark_repeated) =
     Some (JDict [(''bookmark'', JInt 1)]) \<and>
   stdout (emit_safe_queued_states example_collaborators False bookmark_repeated) =
     [JDict [(''bookmark'', JInt 1)]]"
proof -
  let ?p = "JDict [(''bookmark'', JInt 1)]"
  have a: "state_queue bookmark_repeated =
     [\<lparr> state = ?p, watermark = 0 \<rparr>] @
     state_queue (emit_safe_queued_states example_collaborators False bookmark_repeated)"
    by (simp add: bookmark_repeated_fields)
  have b: "[\<lparr> state = ?p, watermark = 0 \<rparr>] \<noteq> []" by simp
  have c: "?p = state (last [\<lparr> state = ?p, watermark = 0 \<rparr>])" by simp
  have d: "truthy ?p" by simp
  from dedup_against_last_emitted [OF a b c d] a d show ?thesis
    by (simp add: bookmark_repeated_fields last_or_empty_def)
qed

subsection \<open>C1: no premature emission\<close>

lemma min_default_le:
  assumes "x \<in> set xs"
  shows "min_default xs d \<le> x"
proof -
  from assms have ne: "xs \<noteq> []" by auto
  from assms show ?thesis by (simp add: min_default_Min [OF ne])
qed

lemma threshold_le_flush_watermark:
  assumes "k \<in> streams_added_to s" and "map_of (stream_flush_watermarks s) k = Some fw"
  shows "safe_flush_threshold s \<le> fw"
proof -
  from assms(2) have "(k, fw) \<in> set (stream_flush_watermarks s)" by (rule map_of_SomeD)
  with assms(1)
  have "fw \<in> set (map snd (filter (\<lambda>(stream, wm). stream \<in> streams_added_to s)
                            (stream_flush_watermarks s)))"
    by force
  then show ?thesis unfolding safe_flush_threshold_def by (rule min_default_le)
qed

lemma popped_safe:
  "e \<in> set (popped force thr q) \<Longrightarrow> force \<or> watermark e \<le> thr"
  unfolding popped_def by (rule set_takeWhileD [THEN conjunct2])

lemma fed_stream_has_flush_watermark:
  assumes "tracker_inv s" and "k \<in> streams_added_to s"
  shows "\<exists>fw. map_of (stream_flush_watermarks s) k = Some fw"
proof -
  from assms have "k \<in> fst ` set (stream_flush_watermarks s)"
    by (auto simp: tracker_inv_def keys_inv_def)
  then show ?thesis by (auto simp: map_of_keys)
qed

text \<open>
  C1. At a pass of \<open>_emit_safe_queued_states\<close> without \<open>force\<close>, in any state of the tracker,
  let \<open>ps\<close> be the entries popped. For every entry of \<open>ps\<close>, so also for the one chosen for
  output, and every stream that has received a record, the entry's watermark is at most the
  stream's flush watermark: every message counter value up to the entry's watermark, hence
  the number of every record received before the STATE message, is covered by the flush
  watermark of each such stream. Such a flush watermark exists in every state in which a run makes a pass
  (\<open>fed_stream_has_flush_watermark\<close>; \<open>tracker_inv\<close> holds there by \<open>tracker_inv_reachable\<close>,
  \<open>tracker_inv_write\<close>, \<open>tracker_inv_write_batches\<close> and \<open>tracker_inv_enqueue\<close>).
\<close>

theorem no_premature_emission:
  assumes "state_queue s = ps @ state_queue (emit_safe_queued_states c False s)"
    and "e \<in> set ps"
    and "stream \<in> streams_added_to s"
    and "map_of (stream_flush_watermarks s) stream = Some fw"
  shows "watermark e \<le> fw \<and> (\<forall>n. n \<le> watermark e \<longrightarrow> n \<le> fw)"
proof -
  have "ps = popped False (safe_flush_threshold s) (state_queue s)"
    by (rule popped_unique [OF assms(1)])
  with assms(2) have "watermark e \<le> safe_flush_threshold s"
    using popped_safe [of e False "safe_flush_threshold s" "state_queue s"] by simp
  also have "safe_flush_threshold s \<le> fw"
    by (rule threshold_le_flush_watermark [OF assms(3,4)])
  finally show ?thesis by auto
qed

lemma three_pending_popped:
  "state_queue (emit_safe_queued_states example_collaborators False three_pending) =
     [\<lparr>state = JDict [(''bookmark'', JInt 4)], watermark = 3\<rparr>]"
  "map_of (stream_flush_watermarks three_pending) ''dogs'' = Some 2"
  "''dogs'' \<in> streams_added_to three_pending"
  by code_simp+

theorem no_premature_emission_witness:
  "state_queue three_pending =
     [\<lparr>state = JDict [(''bookmark'', JInt 1)], watermark = 1\<rparr>,
      \<lparr>state = JDict [(''bookmark'', JInt 2)], watermark = 2\<rparr>,
      \<lparr>state = JDict [(''bookmark'', JInt 3)], watermark = 2\<rparr>] @
     state_queue (emit_safe_queued_states example_collaborators False three_pending) \<and>
   ''dogs'' \<in> streams_added_to three_pending \<and>
   map_of (stream_flush_watermarks three_pending) ''dogs'' = Some 2 \<and>
   watermark \<lparr>state = JDict [(''bookmark'', JInt 3)], watermark = 2\<rparr> \<le> 2"
proof -
  let ?ps = "[\<lparr>state = JDict [(''bookmark'', JInt 1)], watermark = 1\<rparr>,
      \<lparr>state = JDict [(''bookmark'', JInt 2)], watermark = 2\<rparr>,
      \<lparr>state = JDict [(''bookmark'', JInt 3)], watermark = 2\<rparr>]"
  have a: "state_queue three_pending =
     ?ps @ state_queue (emit_safe_queued_states example_collaborators False three_pending)"
    by (simp add: three_pending_queue three_pending_popped)
  have b: "\<lparr>state = JDict [(''bookmark'', JInt 3)], watermark = 2\<rparr> \<in> set ?ps" by simp
  note c = three_pending_popped(3)
  note d = three_pending_popped(2)
  from no_premature_emission [OF a b c d] a c d show ?thesis by blast
qed

subsection \<open>C3: the threshold over time\<close>

lemma Min_image_mono:
  fixes f g :: "'a \<Rightarrow> int"
  assumes "finite A" "A \<noteq> {}" "\<And>x. x \<in> A \<Longrightarrow> f x \<le> g x"
  shows "Min (f ` A) \<le> Min (g ` A)"
proof -
  from assms(1,2) have "Min (g ` A) \<in> g ` A" by (intro Min_in) auto
  then obtain x where x: "x \<in> A" "Min (g ` A) = g x" by blast
  from assms(1) x(1) have "Min (f ` A) \<le> f x" by (intro Min_le) auto
  also from x(1) have "f x \<le> g x" by (rule assms(3))
  finally show ?thesis by (simp add: x(2))
qed

lemma write_fields:
  "streams_added_to (snd (write_batch_and_update_watermarks c k s)) = streams_added_to s"
  "stream_add_watermarks (snd (write_batch_and_update_watermarks c k s)) = stream_add_watermarks s"
  "state_queue (snd (write_batch_and_update_watermarks c k s)) = state_queue s"
  "stdout (snd (write_batch_and_update_watermarks c k s)) = stdout s"
  "last_emitted_state (snd (write_batch_and_update_watermarks c k s)) = last_emitted_state s"
  "message_counter (snd (write_batch_and_update_watermarks c k s)) = message_counter s"
  "max_watermark_lag (snd (write_batch_and_update_watermarks c k s)) = max_watermark_lag s"
  "map fst (streams (snd (write_batch_and_update_watermarks c k s))) = map fst (streams s)"
  by (auto simp: write_batch_and_update_watermarks_def update_keys
           split: option.splits sum.splits dest: map_of_Some_key simp del: map_of_eq_Some_iff)

lemma write_flush_watermarks:
  "map_of (stream_flush_watermarks (snd (write_batch_and_update_watermarks c k s))) =
     (if fst (write_batch_and_update_watermarks c k s) = None
      then (map_of (stream_flush_watermarks s))(k \<mapsto> dict_get (stream_add_watermarks s) k 0)
      else map_of (stream_flush_watermarks s))"
  by (simp add: write_batch_and_update_watermarks_def update_conv' split: option.splits sum.splits)

lemma threshold_write:
  assumes "tracker_inv s"
  shows "safe_flush_threshold s \<le> safe_flush_threshold (snd (write_batch_and_update_watermarks c k s))"
proof -
  let ?s' = "snd (write_batch_and_update_watermarks c k s)"
  let ?A = "streams_added_to s"
  have inv': "tracker_inv ?s'" by (rule tracker_inv_write [OF assms])
  show ?thesis
  proof (cases "?A = {}")
    case True
    then show ?thesis by (simp add: threshold_Min [OF assms] threshold_Min [OF inv'] write_fields)
  next
    case False
    from assms have "fst ` set (stream_add_watermarks s) = ?A"
      by (simp add: tracker_inv_def keys_inv_def)
    then have fin: "finite ?A" by (metis List.finite_set finite_imageI)
    have le: "the (map_of (stream_flush_watermarks s) x) \<le>
              the (map_of (stream_flush_watermarks ?s') x)" if "x \<in> ?A" for x
    proof (cases "fst (write_batch_and_update_watermarks c k s) = None \<and> x = k")
      case True
      from fed_stream_has_flush_watermark [OF assms that] obtain fw
        where fw: "map_of (stream_flush_watermarks s) x = Some fw" by blast
      with assms have "fw \<le> dict_get (stream_add_watermarks s) x 0"
        by (simp add: tracker_inv_def flush_inv_def del: map_of_eq_Some_iff)
      with True fw show ?thesis by (simp add: write_flush_watermarks)
    next
      case False
      then show ?thesis by (auto simp: write_flush_watermarks)
    qed
    from Min_image_mono [OF fin False le] False show ?thesis
      by (simp add: threshold_Min [OF assms] threshold_Min [OF inv'] write_fields)
  qed
qed

lemma threshold_write_batches:
  "tracker_inv s \<Longrightarrow> safe_flush_threshold s \<le> safe_flush_threshold (snd (write_batches c xs s))"
proof (induction xs arbitrary: s)
  case Nil
  then show ?case by simp
next
  case (Cons x xs)
  show ?case
  proof (cases "write_batch_and_update_watermarks c x s")
    case (Pair e s')
    from tracker_inv_write [OF Cons.prems, of c x] Pair have inv': "tracker_inv s'" by simp
    from threshold_write [OF Cons.prems, of c x] Pair
    have le: "safe_flush_threshold s \<le> safe_flush_threshold s'" by simp
    show ?thesis
    proof (cases e)
      case None
      with Pair Cons.IH [OF inv'] le show ?thesis by simp
    next
      case (Some err)
      with Pair le show ?thesis by simp
    qed
  qed
qed

lemma write_batches_added_to:
  "streams_added_to (snd (write_batches c xs s)) = streams_added_to s"
proof (induction xs arbitrary: s)
  case Nil
  then show ?case by simp
next
  case (Cons x xs)
  show ?case
  proof (cases "write_batch_and_update_watermarks c x s")
    case (Pair e s')
    then have "streams_added_to s' = streams_added_to s"
      using write_fields(1) [of c x s] by simp
    with Pair Cons.IH [of s'] show ?thesis by (cases e) simp_all
  qed
qed

lemma threshold_step:
  assumes "tracker_inv s" and "record_or_flush (streams_added_to s) x"
  shows "safe_flush_threshold s \<le> safe_flush_threshold (snd (call_tracker c x s)) \<and>
         streams_added_to (snd (call_tracker c x s)) = streams_added_to s"
proof (cases x)
  case (RegisterStream k b)
  with assms(2) show ?thesis by simp
next
  case (FlushStream k)
  show ?thesis
  proof (cases "write_batch_and_update_watermarks c k s")
    case (Pair e s')
    with threshold_write [OF assms(1), of c k] write_fields(1) [of c k s]
    show ?thesis using FlushStream
      by (cases e) (simp_all add: flush_stream_def emit_threshold emit_frame)
  qed
next
  case (FlushStreamsIfRequired force)
  show ?thesis
  proof (cases "write_batches c (set_iteration c (streams_to_flush c force s)) s")
    case (Pair e s')
    with threshold_write_batches [OF assms(1), of c "set_iteration c (streams_to_flush c force s)"]
      write_batches_added_to [of c "set_iteration c (streams_to_flush c force s)" s]
    show ?thesis using FlushStreamsIfRequired
      by (cases e) (simp_all add: flush_streams_if_required_def emit_threshold emit_frame)
  qed
next
  case (HandleStateMessage line_data)
  with assms(2) show ?thesis by simp
next
  case (HandleRecordMessage k r)
  with assms(2) have "k \<in> streams_added_to s" by simp
  then have "insert k (streams_added_to s) = streams_added_to s" by blast
  then show ?thesis using HandleRecordMessage
    by (simp add: handle_record_message_def safe_flush_threshold_def split: option.splits)
qed

lemma threshold_run:
  assumes "tracker_inv s" and "\<forall>x \<in> set ops. record_or_flush (streams_added_to s) x"
  shows "safe_flush_threshold s \<le> safe_flush_threshold (run c ops s) \<and>
         streams_added_to (run c ops s) = streams_added_to s"
  using assms
proof (induction ops arbitrary: s)
  case Nil
  then show ?case by simp
next
  case (Cons x ops)
  let ?s' = "snd (call_tracker c x s)"
  from Cons.prems have x: "record_or_flush (streams_added_to s) x" by simp
  from threshold_step [OF Cons.prems(1) x, of c]
  have le: "safe_flush_threshold s \<le> safe_flush_threshold ?s'"
    and same: "streams_added_to ?s' = streams_added_to s" by simp_all
  have inv': "tracker_inv ?s'" by (rule tracker_inv_call [OF Cons.prems(1)])
  from Cons.prems(2) same have "\<forall>y \<in> set ops. record_or_flush (streams_added_to ?s') y" by simp
  from Cons.IH [OF inv' this] le same show ?case by simp
qed

lemma run_append: "run c (xs @ ys) s = run c ys (run c xs s)"
  by (induction xs arbitrary: s) simp_all

text \<open>
  C3 says that the threshold never decreases over record and flush operations. A stream
  enters the minimum with its first record: \<open>cats\<close> has been flushed up to 1 and \<open>dogs\<close>
  is registered without records, so the threshold is 1; the first record of \<open>dogs\<close> brings
  its flush watermark 0 into the minimum and the threshold falls to 0.
\<close>

theorem first_record_lowers_threshold:
  "safe_flush_threshold cat_flushed_dog_silent = 1 \<and>
   safe_flush_threshold
     (run example_collaborators [HandleRecordMessage ''dogs'' 6] cat_flushed_dog_silent) = 0 \<and>
   \<not> safe_flush_threshold cat_flushed_dog_silent \<le>
       safe_flush_threshold
         (run example_collaborators [HandleRecordMessage ''dogs'' 6] cat_flushed_dog_silent)"
  by code_simp

text \<open>
  C3, amended. From any state a run leads to, over every sequence of flush operations
  (\<open>flush_stream\<close>, \<open>flush_streams_if_required\<close>) and of records for streams that have
  already received a record, the threshold is non-decreasing: its value after any prefix of
  the sequence is at most its value after the whole sequence.
\<close>

theorem threshold_monotone_for_fed_streams:
  assumes "\<forall>x \<in> set (ops1 @ ops2).
             record_or_flush (streams_added_to (run c calls (init tgt emit lag))) x"
  shows "safe_flush_threshold (run c ops1 (run c calls (init tgt emit lag))) \<le>
         safe_flush_threshold (run c (ops1 @ ops2) (run c calls (init tgt emit lag)))"
proof -
  let ?s = "run c calls (init tgt emit lag)"
  have inv: "tracker_inv ?s" by (rule tracker_inv_reachable)
  from assms have 1: "\<forall>x \<in> set ops1. record_or_flush (streams_added_to ?s) x" by simp
  have inv1: "tracker_inv (run c ops1 ?s)" by (rule tracker_inv_run [OF inv])
  from threshold_run [OF inv 1, of c]
  have same: "streams_added_to (run c ops1 ?s) = streams_added_to ?s" by simp
  from assms same
  have 2: "\<forall>x \<in> set ops2. record_or_flush (streams_added_to (run c ops1 ?s)) x" by simp
  from threshold_run [OF inv1 2, of c] show ?thesis by (simp add: run_append)
qed

lemma cat_flushed_dog_silent_fields:
  "streams_added_to cat_flushed_dog_silent = {''cats''}"
  "safe_flush_threshold
     (run example_collaborators [HandleRecordMessage ''cats'' 7] cat_flushed_dog_silent) = 1"
  "safe_flush_threshold
     (run example_collaborators
        ([HandleRecordMessage ''cats'' 7] @
         [HandleRecordMessage ''cats'' 8, FlushStreamsIfRequired False])
        cat_flushed_dog_silent) = 3"
  by code_simp+

theorem threshold_monotone_for_fed_streams_witness:
  "record_or_flush (streams_added_to cat_flushed_dog_silent)
     (HandleRecordMessage ''cats'' 7 :: (nat list, nat) call) \<and>
   record_or_flush (streams_added_to cat_flushed_dog_silent)
     (HandleRecordMessage ''cats'' 8 :: (nat list, nat) call) \<and>
   record_or_flush (streams_added_to cat_flushed_dog_silent)
     (FlushStreamsIfRequired False :: (nat list, nat) call) \<and>
   safe_flush_threshold
     (run example_collaborators [HandleRecordMessage ''cats'' 7] cat_flushed_dog_silent) \<le>
   safe_flush_threshold
     (run example_collaborators
        ([HandleRecordMessage ''cats'' 7] @
         [HandleRecordMessage ''cats'' 8, FlushStreamsIfRequired False])
        cat_flushed_dog_silent)"
proof -
  have h: "\<forall>x \<in> set ([HandleRecordMessage ''cats'' 7] @
                 [HandleRecordMessage ''cats'' 8, FlushStreamsIfRequired False]).
       record_or_flush (streams_added_to cat_flushed_dog_silent) (x :: (nat list, nat) call)"
    by (simp add: cat_flushed_dog_silent_fields)
  from h threshold_monotone_for_fed_streams
    [of "[HandleRecordMessage ''cats'' 7]"
        "[HandleRecordMessage ''cats'' 8, FlushStreamsIfRequired False]"
        example_collaborators
        "[RegisterStream ''cats'' [], RegisterStream ''dogs'' [],
          HandleRecordMessage ''cats'' 5, FlushStream ''cats'']"
        "[]" True default_max_watermark_lag,
      folded fresh_def, folded cat_flushed_dog_silent_def]
  show ?thesis by simp
qed

subsection \<open>C8: the eager flush\<close>

lemma set_set_add: "set (set_add x xs) = insert x (set xs)"
  by (auto simp: set_add_def)

lemma set_fold_set_add: "set (fold set_add ys xs) = set ys \<union> set xs"
  by (induction ys arbitrary: xs) (auto simp: set_set_add)

lemma full_or_forced_aux:
  "set (fold (\<lambda>(stream, stream_buffer) acc.
               if force \<or> buffer_full c stream_buffer then set_add stream acc else acc) al acc0)
     = set acc0 \<union> {k. \<exists>b. (k, b) \<in> set al \<and> (force \<or> buffer_full c b)}"
proof (induction al arbitrary: acc0)
  case Nil
  then show ?case by simp
next
  case (Cons p al)
  obtain k b where p: "p = (k, b)" by (cases p)
  show ?case unfolding p by (auto simp: Cons.IH set_set_add)
qed

lemma set_full_or_forced:
  "set (full_or_forced c force s) =
     {k. \<exists>b. (k, b) \<in> set (streams s) \<and> (force \<or> buffer_full c b)}"
  by (simp add: full_or_forced_def full_or_forced_aux)

lemma full_or_forced_subset: "set (full_or_forced c force s) \<subseteq> fst ` set (streams s)"
  by (force simp: set_full_or_forced)

lemma streams_to_flush_all:
  assumes "lag_exceeded s"
  shows "set (streams_to_flush c force s) = fst ` set (streams s)"
  using assms full_or_forced_subset [of c force s]
  by (auto simp: streams_to_flush_def set_fold_set_add)

lemma write_batches_fields:
  "stream_add_watermarks (snd (write_batches c xs s)) = stream_add_watermarks s \<and>
   state_queue (snd (write_batches c xs s)) = state_queue s \<and>
   stdout (snd (write_batches c xs s)) = stdout s \<and>
   last_emitted_state (snd (write_batches c xs s)) = last_emitted_state s \<and>
   message_counter (snd (write_batches c xs s)) = message_counter s \<and>
   map fst (streams (snd (write_batches c xs s))) = map fst (streams s)"
proof (induction xs arbitrary: s)
  case Nil
  then show ?case by simp
next
  case (Cons x xs)
  show ?case
  proof (cases "write_batch_and_update_watermarks c x s")
    case (Pair e s')
    from Pair write_fields [of c x s]
    have "stream_add_watermarks s' = stream_add_watermarks s \<and>
          state_queue s' = state_queue s \<and> stdout s' = stdout s \<and>
          last_emitted_state s' = last_emitted_state s \<and>
          message_counter s' = message_counter s \<and>
          map fst (streams s') = map fst (streams s)"
      by simp
    with Pair Cons.IH [of s'] show ?thesis by (cases e) simp_all
  qed
qed

lemma write_batches_flush_watermarks:
  "fst (write_batches c xs s) = None \<Longrightarrow>
   map_of (stream_flush_watermarks (snd (write_batches c xs s))) k =
     (if k \<in> set xs then Some (dict_get (stream_add_watermarks s) k 0)
      else map_of (stream_flush_watermarks s) k)"
proof (induction xs arbitrary: s)
  case Nil
  then show ?case by simp
next
  case (Cons x xs)
  show ?case
  proof (cases "write_batch_and_update_watermarks c x s")
    case (Pair e s')
    show ?thesis
    proof (cases e)
      case None
      with Pair Cons.prems have ok: "fst (write_batches c xs s') = None" by simp
      from Pair None write_flush_watermarks [of c x s] write_fields(2) [of c x s]
      have f: "map_of (stream_flush_watermarks s') =
                 (map_of (stream_flush_watermarks s))(x \<mapsto> dict_get (stream_add_watermarks s) x 0)"
        and a: "stream_add_watermarks s' = stream_add_watermarks s"
        by simp_all
      from Cons.IH [OF ok] Pair None show ?thesis by (simp add: f a)
    next
      case (Some err)
      with Pair Cons.prems show ?thesis by simp
    qed
  qed
qed

lemma emit_force_empties_queue:
  "state_queue (emit_safe_queued_states c True s) = []"
  by (simp add: emit_queue)

text \<open>
  C8 says that a lag above \<open>max_watermark_lag\<close> alone makes the next
  \<open>flush_streams_if_required\<close> flush every stream. The lag is only looked at when
  \<open>state_queue\<close> is not empty: with \<open>max_watermark_lag = 0\<close>, one record buffered for
  \<open>cats\<close> and no STATE message queued, the lag is 1 and the call flushes nothing.
\<close>

theorem lag_without_checkpoint_flushes_nothing:
  "state_queue lagging_no_checkpoint = [] \<and>
   max_watermark_lag lagging_no_checkpoint <
     message_counter lagging_no_checkpoint - safe_flush_threshold lagging_no_checkpoint \<and>
   streams lagging_no_checkpoint = [(''cats'', [5])] \<and>
   flush_streams_if_required example_collaborators False lagging_no_checkpoint =
     (None, lagging_no_checkpoint)"
  by code_simp

text \<open>
  C8, amended. With \<open>max_watermark_lag = L\<close>, whenever the checkpoint queue is not empty
  and the message counter minus the safe threshold exceeds \<open>L\<close>, an invocation of
  \<open>flush_streams_if_required\<close> puts every registered stream into \<open>streams_to_flush\<close>, whatever
  \<open>force\<close> and the buffers say, flushes them, and, unless a write raises, runs the emission
  pass with \<open>force\<close> set. When the iteration visits the streams to flush and no write
  raises, every registered stream ends with its flush watermark at its add watermark and
  the queue ends empty.
\<close>

theorem eager_flush:
  assumes "state_queue s \<noteq> []"
    and "max_watermark_lag s < message_counter s - safe_flush_threshold s"
  shows "set (streams_to_flush c force s) = fst ` set (streams s) \<and>
         flush_streams_if_required c force s =
           (case write_batches c (set_iteration c (streams_to_flush c force s)) s of
              (Some e, s') \<Rightarrow> (Some e, s')
            | (None, s') \<Rightarrow> (None, emit_safe_queued_states c True s')) \<and>
         (set (set_iteration c (streams_to_flush c force s)) = set (streams_to_flush c force s) \<and>
          fst (flush_streams_if_required c force s) = None \<longrightarrow>
            state_queue (snd (flush_streams_if_required c force s)) = [] \<and>
            (\<forall>k \<in> fst ` set (streams s).
               map_of (stream_flush_watermarks (snd (flush_streams_if_required c force s))) k =
                 Some (dict_get (stream_add_watermarks s) k 0)))"
proof -
  let ?xs = "set_iteration c (streams_to_flush c force s)"
  from assms have lag: "lag_exceeded s" by (simp add: lag_exceeded_def)
  have 1: "set (streams_to_flush c force s) = fst ` set (streams s)"
    by (rule streams_to_flush_all [OF lag])
  have 2: "flush_streams_if_required c force s =
           (case write_batches c ?xs s of
              (Some e, s') \<Rightarrow> (Some e, s')
            | (None, s') \<Rightarrow> (None, emit_safe_queued_states c True s'))"
    using lag
    by (simp add: flush_streams_if_required_def effective_force_def
          split: prod.splits option.splits)
  have 3: "state_queue (snd (flush_streams_if_required c force s)) = [] \<and>
            (\<forall>k \<in> fst ` set (streams s).
               map_of (stream_flush_watermarks (snd (flush_streams_if_required c force s))) k =
                 Some (dict_get (stream_add_watermarks s) k 0))"
    if vis: "set ?xs = set (streams_to_flush c force s)"
      and ok: "fst (flush_streams_if_required c force s) = None"
  proof (cases "write_batches c ?xs s")
    case (Pair e s')
    with ok 2 have e: "e = None" by (cases e) simp_all
    with Pair 2 have r: "snd (flush_streams_if_required c force s) = emit_safe_queued_states c True s'"
      by simp
    from Pair e have w: "fst (write_batches c ?xs s) = None" "snd (write_batches c ?xs s) = s'"
      by simp_all
    have "map_of (stream_flush_watermarks s') k = Some (dict_get (stream_add_watermarks s) k 0)"
      if "k \<in> fst ` set (streams s)" for k
      using write_batches_flush_watermarks [OF w(1), of k] that vis 1 by (simp add: w(2))
    then show ?thesis by (simp add: r emit_force_empties_queue emit_frame)
  qed
  from 1 2 3 show ?thesis by blast
qed

lemma lagging_with_checkpoint_fields:
  "state_queue lagging_with_checkpoint =
     [\<lparr>state = JDict [(''bookmark'', JInt 1)], watermark = 1\<rparr>]"
  "max_watermark_lag lagging_with_checkpoint = 0"
  "message_counter lagging_with_checkpoint = 1"
  "safe_flush_threshold lagging_with_checkpoint = 0"
  "streams lagging_with_checkpoint = [(''cats'', [5]), (''dogs'', [])]"
  "full_or_forced example_collaborators False lagging_with_checkpoint = []"
  "streams_to_flush example_collaborators False lagging_with_checkpoint = [''cats'', ''dogs'']"
  "flush_streams_if_required example_collaborators False lagging_with_checkpoint =
     (None, emit_safe_queued_states example_collaborators True
        (snd (write_batches example_collaborators [''cats'', ''dogs''] lagging_with_checkpoint)))"
  "target (snd (flush_streams_if_required example_collaborators False lagging_with_checkpoint)) =
     [[5], []]"
  by code_simp+

theorem eager_flush_witness:
  "state_queue lagging_with_checkpoint \<noteq> [] \<and>
   max_watermark_lag lagging_with_checkpoint <
     message_counter lagging_with_checkpoint - safe_flush_threshold lagging_with_checkpoint \<and>
   full_or_forced example_collaborators False lagging_with_checkpoint = [] \<and>
   set (streams_to_flush example_collaborators False lagging_with_checkpoint) = {''cats'', ''dogs''} \<and>
   fst (flush_streams_if_required example_collaborators False lagging_with_checkpoint) = None \<and>
   state_queue (snd (flush_streams_if_required example_collaborators False lagging_with_checkpoint))
     = [] \<and>
   target (snd (flush_streams_if_required example_collaborators False lagging_with_checkpoint)) =
     [[5], []]"
proof -
  have a: "state_queue lagging_with_checkpoint \<noteq> []"
    by (simp add: lagging_with_checkpoint_fields)
  have b: "max_watermark_lag lagging_with_checkpoint <
     message_counter lagging_with_checkpoint - safe_flush_threshold lagging_with_checkpoint"
    by (simp add: lagging_with_checkpoint_fields)
  have v: "set (set_iteration example_collaborators
                  (streams_to_flush example_collaborators False lagging_with_checkpoint)) =
           set (streams_to_flush example_collaborators False lagging_with_checkpoint)"
    by (simp add: example_collaborators_def)
  have ok: "fst (flush_streams_if_required example_collaborators False lagging_with_checkpoint) = None"
    by (simp add: lagging_with_checkpoint_fields)
  from eager_flush [OF a b, of example_collaborators False] v ok
  have "set (streams_to_flush example_collaborators False lagging_with_checkpoint) =
          fst ` set (streams lagging_with_checkpoint)"
    and "state_queue (snd (flush_streams_if_required example_collaborators False
           lagging_with_checkpoint)) = []"
    by blast+
  with a b ok show ?thesis by (simp add: lagging_with_checkpoint_fields(5,6,9))
qed

subsection \<open>C9: a failing write\<close>

lemma write_batches_append:
  "write_batches c (xs @ ys) s =
     (case write_batches c xs s of
        (Some e, s') \<Rightarrow> (Some e, s')
      | (None, s') \<Rightarrow> write_batches c ys s')"
  by (induction xs arbitrary: s) (simp_all split: prod.splits option.splits)

lemma write_fails:
  assumes "map_of (streams s) k = Some b" and "write_batch c (target s) b = Inl e"
  shows "write_batch_and_update_watermarks c k s = (Some e, s)"
  using assms by (simp add: write_batch_and_update_watermarks_def)

text \<open>
  C9. Let \<open>flush_streams_if_required\<close> iterate over \<open>flushed @ k # rest\<close>, let the writes
  for \<open>flushed\<close> succeed and lead to the state \<open>s1\<close>, and let \<open>write_batch\<close> raise \<open>e\<close> for
  the buffer of \<open>k\<close> there. Then the call raises \<open>e\<close> and leaves the tracker in \<open>s1\<close>: the
  failing attempt changes nothing (nor does it under \<open>flush_stream\<close>), so the flush
  watermark of \<open>k\<close> is what it was, the streams of \<open>rest\<close> are not attempted, the emission
  pass does not run (queue, output and last emitted state are those at entry), and the
  streams of \<open>flushed\<close> keep their flush watermark at their add watermark.
\<close>

theorem write_failure_aborts_flush:
  assumes "set_iteration c (streams_to_flush c force s) = flushed @ k # rest"
    and "write_batches c flushed s = (None, s1)"
    and "map_of (streams s1) k = Some b"
    and "write_batch c (target s1) b = Inl e"
  shows "flush_streams_if_required c force s = (Some e, s1) \<and>
         write_batch_and_update_watermarks c k s1 = (Some e, s1) \<and>
         flush_stream c k s1 = (Some e, s1) \<and>
         stdout s1 = stdout s \<and>
         state_queue s1 = state_queue s \<and>
         last_emitted_state s1 = last_emitted_state s \<and>
         (k \<notin> set flushed \<longrightarrow>
            map_of (stream_flush_watermarks s1) k = map_of (stream_flush_watermarks s) k) \<and>
         (\<forall>j \<in> set flushed.
            map_of (stream_flush_watermarks s1) j = Some (dict_get (stream_add_watermarks s) j 0))"
proof -
  have w: "write_batch_and_update_watermarks c k s1 = (Some e, s1)"
    by (rule write_fails [OF assms(3,4)])
  have 1: "flush_streams_if_required c force s = (Some e, s1)"
    by (simp add: flush_streams_if_required_def assms(1,2) write_batches_append w)
  have 2: "flush_stream c k s1 = (Some e, s1)"
    by (simp add: flush_stream_def w)
  from assms(2) have ok: "fst (write_batches c flushed s) = None"
    and s1: "snd (write_batches c flushed s) = s1" by simp_all
  from write_batches_fields [of c flushed s]
  have 3: "stdout s1 = stdout s \<and> state_queue s1 = state_queue s \<and>
           last_emitted_state s1 = last_emitted_state s"
    by (simp add: s1)
  have 4: "map_of (stream_flush_watermarks s1) j =
             (if j \<in> set flushed then Some (dict_get (stream_add_watermarks s) j 0)
              else map_of (stream_flush_watermarks s) j)" for j
    using write_batches_flush_watermarks [OF ok, of j] by (simp add: s1)
  from w 1 2 3 4 show ?thesis by simp
qed

lemma dogs_unwritable_fields:
  "set_iteration example_collaborators (streams_to_flush example_collaborators True dogs_unwritable)
     = [''cats''] @ ''dogs'' # [''birds'']"
  "write_batches example_collaborators [''cats''] dogs_unwritable = (None, cats_written)"
  "map_of (streams cats_written) ''dogs'' = Some [0]"
  "write_batch example_collaborators (target cats_written) [0] = Inl WriteError"
  "map_of (stream_flush_watermarks dogs_unwritable) ''dogs'' = Some 0"
  "dict_get (stream_add_watermarks dogs_unwritable) ''cats'' 0 = 1"
  "stdout dogs_unwritable = []"
  "state_queue dogs_unwritable = [\<lparr>state = JDict [(''bookmark'', JInt 1)], watermark = 3\<rparr>]"
  by code_simp+

theorem write_failure_aborts_flush_witness:
  "set_iteration example_collaborators (streams_to_flush example_collaborators True dogs_unwritable)
     = [''cats''] @ ''dogs'' # [''birds''] \<and>
   write_batches example_collaborators [''cats''] dogs_unwritable = (None, cats_written) \<and>
   map_of (streams cats_written) ''dogs'' = Some [0] \<and>
   write_batch example_collaborators (target cats_written) [0] = Inl WriteError \<and>
   flush_streams_if_required example_collaborators True dogs_unwritable =
     (Some WriteError, cats_written) \<and>
   stdout cats_written = [] \<and>
   state_queue cats_written = [\<lparr>state = JDict [(''bookmark'', JInt 1)], watermark = 3\<rparr>] \<and>
   map_of (stream_flush_watermarks cats_written) ''dogs'' = Some 0 \<and>
   map_of (stream_flush_watermarks cats_written) ''cats'' = Some 1"
proof -
  note t = write_failure_aborts_flush [OF dogs_unwritable_fields(1-4)]
  from t have 1: "flush_streams_if_required example_collaborators True dogs_unwritable =
     (Some WriteError, cats_written)" by (rule conjunct1)
  from t have 2: "stdout cats_written = []"
    and 3: "state_queue cats_written =
              [\<lparr>state = JDict [(''bookmark'', JInt 1)], watermark = 3\<rparr>]"
    by (simp_all only: dogs_unwritable_fields(7,8))
  from t have 4: "map_of (stream_flush_watermarks cats_written) ''dogs'' = Some 0"
    by (simp add: dogs_unwritable_fields(5))
  from t have 5: "map_of (stream_flush_watermarks cats_written) ''cats'' = Some 1"
    by (simp add: dogs_unwritable_fields(6))
  from dogs_unwritable_fields(1-4) 1 2 3 4 5 show ?thesis by (intro conjI)
qed

end
